theory Spec2Isabelle
  imports Main "HOL-Library.Word"
begin

section \<open>Python formatting primitives used by \<open>disasm.py\<close>\<close>

type_synonym byte = "8 word"

text \<open>The lowercase hexadecimal digit of a value below 16.\<close>

definition hex_digit :: "nat \<Rightarrow> char" where
  "hex_digit d = ''0123456789abcdef'' ! d"

text \<open>Python's \<open>format(n, "x")\<close>: the shortest lowercase hexadecimal numeral of \<open>n\<close>,
  a single \<open>0\<close> for zero.\<close>

fun hex_nat :: "nat \<Rightarrow> string" where
  "hex_nat n = (if n < 16 then [hex_digit n] else hex_nat (n div 16) @ [hex_digit (n mod 16)])"

declare hex_nat.simps [simp del]

text \<open>Python's \<open>str(n)\<close> for a non-negative integer.\<close>

fun dec_nat :: "nat \<Rightarrow> string" where
  "dec_nat n = (if n < 10 then [hex_digit n] else dec_nat (n div 10) @ [hex_digit (n mod 10)])"

declare dec_nat.simps [simp del]

text \<open>The \<open>0\<close> flag with a minimum width: pad on the left with zeros, never cut.\<close>

definition zero_pad :: "nat \<Rightarrow> string \<Rightarrow> string" where
  "zero_pad w s = replicate (w - length s) CHR ''0'' @ s"

text \<open>\<open>"{:0{w}x}".format(n)\<close>; \<open>"{:04x}"\<close> is \<open>format_0x 4\<close>.\<close>

definition format_0x :: "nat \<Rightarrow> nat \<Rightarrow> string" where
  "format_0x w n = zero_pad w (hex_nat n)"

text \<open>\<open>int.from_bytes(bs, byteorder="big")\<close>.\<close>

definition from_bytes_big :: "byte list \<Rightarrow> nat" where
  "from_bytes_big bs = foldl (\<lambda>acc b. acc * 256 + unat b) 0 bs"

text \<open>\<open>bytes.hex()\<close>: two lowercase hexadecimal digits per byte.\<close>

definition bytes_hex :: "byte list \<Rightarrow> string" where
  "bytes_hex bs = concat (map (\<lambda>b. format_0x 2 (unat b)) bs)"

text \<open>The slice \<open>code[a:b]\<close> for \<open>0 \<le> a\<close>: it never raises, and is cut at the end of
  the buffer.\<close>

definition py_slice :: "'a list \<Rightarrow> nat \<Rightarrow> nat \<Rightarrow> 'a list" where
  "py_slice xs a b = take (b - a) (drop a xs)"

text \<open>Reading a hexadecimal numeral back (used to state what a payload denotes).\<close>

definition hex_value :: "char \<Rightarrow> nat" where
  "hex_value c = length (takeWhile (\<lambda>d. d \<noteq> c) ''0123456789abcdef'')"

definition hex_val :: "string \<Rightarrow> nat" where
  "hex_val s = foldl (\<lambda>acc c. acc * 16 + hex_value c) 0 s"

definition is_hex :: "char \<Rightarrow> bool" where
  "is_hex c = (c \<in> set ''0123456789abcdef'')"


section \<open>The interface of \<open>smol_evm\<close> that \<open>disasm.py\<close> imports\<close>

text \<open>What \<open>disassemble\<close> reads of a decoded instruction: \<open>insn.opcode\<close>,
  \<open>insn.is_push()\<close>, \<open>insn.push_width()\<close> and \<open>str(insn)\<close>.\<close>

record Instruction =
  opcode :: byte
  is_push :: bool
  push_width :: nat
  str :: string

text \<open>The names imported from \<open>smol_evm.opcodes\<close> (the module is not part of the
  sources at hand, so it is a parameter): \<open>decode_opcode\<close> maps the buffer and
  \<open>context.pc\<close> to the instruction and the advanced \<open>context.pc\<close>; the other fields
  are the \<open>.opcode\<close> of the six instruction constants.\<close>

record opcodes =
  decode_opcode :: "byte list \<Rightarrow> nat \<Rightarrow> Instruction \<times> nat"
  JUMP :: byte
  STOP :: byte
  REVERT :: byte
  RETURN :: byte
  INVALID :: byte
  JUMPDEST :: byte

definition TERMINATING :: "opcodes \<Rightarrow> byte set" where
  "TERMINATING ext = {JUMP ext, STOP ext, REVERT ext, RETURN ext, INVALID ext}"


section \<open>\<open>disasm.py\<close>\<close>

record DataSection =
  start_pc :: nat
  data :: "byte list"

text \<open>\<open>DataSection.render\<close> appends one line to \<open>output\<close>.\<close>

definition render_text :: "DataSection \<Rightarrow> string" where
  "render_text self =
     format_0x 4 (start_pc self) @ '': DATA 0x''
       @ format_0x (length (data self) * 2) (from_bytes_big (data self))"

definition render :: "DataSection \<Rightarrow> string list \<Rightarrow> string list" where
  "render self output = output @ [render_text self]"

text \<open>The local variables of \<open>disassemble\<close> that live across iterations; \<open>pc\<close> is
  \<open>context.pc\<close>. The element type of \<open>output\<close> is \<open>string\<close> in the program.\<close>

record 'o state =
  pc :: nat
  reading_code :: bool
  data_section :: "DataSection option"
  "output" :: "'o list"

text \<open>One iteration of the \<open>while\<close> loop (lines 37 to 67). The test
  \<open>insn.opcode is JUMPDEST.opcode\<close> compares two integers in \<open>0..255\<close>, where
  identity and equality agree.\<close>

definition step :: "opcodes \<Rightarrow> byte list \<Rightarrow> string state \<Rightarrow> string state" where
  "step ext code s =
     (let original_pc = pc s;
          pc_str = format_0x 4 original_pc;
          (insn, pc') = decode_opcode ext code original_pc;
          push_data = (if is_push insn
                       then py_slice code (original_pc + 1) (original_pc + 1 + push_width insn)
                       else []);
          reading = (reading_code s \<or> opcode insn = JUMPDEST ext)
      in if reading then
           let out1 = (case data_section s of
                         Some ds \<Rightarrow> render ds (output s)
                       | None \<Rightarrow> output s);
               out2 = (if is_push insn \<and> length push_data < push_width insn
                       then out1 @ [pc_str @ '': PUSH'' @ dec_nat (push_width insn)
                                      @ '' 0x'' @ bytes_hex push_data @ '' # truncated'']
                       else out1 @ [pc_str @ '': '' @ str insn])
           in \<lparr>pc = pc', reading_code = (opcode insn \<notin> TERMINATING ext),
               data_section = None, output = out2\<rparr>
         else
           let ds = (case data_section s of
                       None \<Rightarrow> \<lparr>start_pc = original_pc, data = []\<rparr>
                     | Some ds \<Rightarrow> ds)
           in \<lparr>pc = pc', reading_code = reading,
               data_section = Some (ds\<lparr>data := data ds @ [opcode insn] @ push_data\<rparr>),
               output = output s\<rparr>)"

text \<open>The \<open>while\<close> loop. A decoder that does not advance would make it run forever,
  which is the value \<open>None\<close>.\<close>

partial_function (option) loop :: "opcodes \<Rightarrow> byte list \<Rightarrow> string state \<Rightarrow> string state option"
  where
  "loop ext code s = (if pc s < length code then loop ext code (step ext code s) else Some s)"

declare loop.simps [code]

definition init :: "'o state" where
  "init = \<lparr>pc = 0, reading_code = True, data_section = None, output = []\<rparr>"

text \<open>The flush after the loop (lines 69 to 72).\<close>

definition finish :: "string state \<Rightarrow> string list" where
  "finish s = (case data_section s of Some ds \<Rightarrow> render ds (output s) | None \<Rightarrow> output s)"

definition disassemble :: "opcodes \<Rightarrow> byte list \<Rightarrow> string list option" where
  "disassemble ext code = map_option finish (loop ext code init)"


section \<open>The listing before it is formatted\<close>

text \<open>Each \<open>output.append\<close> of the program writes one of three kinds of line. Keeping
  the kind and the fields of each line gives a second reading of the loop, \<open>step_lines\<close>,
  that differs from \<open>step\<close> only in appending the line unformatted; \<open>render_line\<close> is
  the f-string of that kind.\<close>

datatype line =
    Insn nat Instruction
  | Truncated nat Instruction "byte list"
  | Data DataSection

fun render_line :: "line \<Rightarrow> string" where
  "render_line (Insn p insn) = format_0x 4 p @ '': '' @ str insn"
| "render_line (Truncated p insn push_data) =
     format_0x 4 p @ '': PUSH'' @ dec_nat (push_width insn)
       @ '' 0x'' @ bytes_hex push_data @ '' # truncated''"
| "render_line (Data ds) = render_text ds"

fun line_pc :: "line \<Rightarrow> nat" where
  "line_pc (Insn p insn) = p"
| "line_pc (Truncated p insn push_data) = p"
| "line_pc (Data ds) = start_pc ds"

fun is_Data :: "line \<Rightarrow> bool" where
  "is_Data (Data ds) = True"
| "is_Data l = False"

definition step_lines :: "opcodes \<Rightarrow> byte list \<Rightarrow> line state \<Rightarrow> line state" where
  "step_lines ext code s =
     (let original_pc = pc s;
          (insn, pc') = decode_opcode ext code original_pc;
          push_data = (if is_push insn
                       then py_slice code (original_pc + 1) (original_pc + 1 + push_width insn)
                       else []);
          reading = (reading_code s \<or> opcode insn = JUMPDEST ext)
      in if reading then
           let out1 = (case data_section s of
                         Some ds \<Rightarrow> output s @ [Data ds]
                       | None \<Rightarrow> output s);
               out2 = (if is_push insn \<and> length push_data < push_width insn
                       then out1 @ [Truncated original_pc insn push_data]
                       else out1 @ [Insn original_pc insn])
           in \<lparr>pc = pc', reading_code = (opcode insn \<notin> TERMINATING ext),
               data_section = None, output = out2\<rparr>
         else
           let ds = (case data_section s of
                       None \<Rightarrow> \<lparr>start_pc = original_pc, data = []\<rparr>
                     | Some ds \<Rightarrow> ds)
           in \<lparr>pc = pc', reading_code = reading,
               data_section = Some (ds\<lparr>data := data ds @ [opcode insn] @ push_data\<rparr>),
               output = output s\<rparr>)"

partial_function (option) loop_lines :: "opcodes \<Rightarrow> byte list \<Rightarrow> line state \<Rightarrow> line state option"
  where
  "loop_lines ext code s =
     (if pc s < length code then loop_lines ext code (step_lines ext code s) else Some s)"

declare loop_lines.simps [code]

definition finish_lines :: "line state \<Rightarrow> line list" where
  "finish_lines s = (case data_section s of Some ds \<Rightarrow> output s @ [Data ds] | None \<Rightarrow> output s)"

definition listing :: "opcodes \<Rightarrow> byte list \<Rightarrow> line list option" where
  "listing ext code = map_option finish_lines (loop_lines ext code init)"

definition rendered :: "line state \<Rightarrow> string state" where
  "rendered s = \<lparr>pc = pc s, reading_code = reading_code s, data_section = data_section s,
                 output = map render_line (output s)\<rparr>"


section \<open>What is assumed of the decoder\<close>

text \<open>The decoder moves the cursor forward.\<close>

definition advances :: "opcodes \<Rightarrow> byte list \<Rightarrow> bool" where
  "advances ext code = (\<forall>p<length code. p < snd (decode_opcode ext code p))"

text \<open>The decoder's contract: the instruction decoded at \<open>p\<close> has the byte at \<open>p\<close> as
  its opcode, and the cursor moves past the opcode and its operand (\<open>push_width\<close> bytes
  for a push, none otherwise), or to the end of the buffer or beyond when the operand is
  cut short. Whether the cursor is clamped at the end is left open.\<close>

definition operand_width :: "Instruction \<Rightarrow> nat" where
  "operand_width insn = (if is_push insn then push_width insn else 0)"

definition faithful :: "opcodes \<Rightarrow> byte list \<Rightarrow> bool" where
  "faithful ext code =
     (\<forall>p<length code.
        opcode (fst (decode_opcode ext code p)) = code ! p \<and>
        min (length code) (snd (decode_opcode ext code p))
          = min (length code) (p + 1 + operand_width (fst (decode_opcode ext code p))))"

text \<open>The states at the head of the loop during \<open>disassemble code\<close>.\<close>

inductive reachable :: "opcodes \<Rightarrow> byte list \<Rightarrow> string state \<Rightarrow> bool" for ext code where
  start: "reachable ext code init"
| iter: "reachable ext code s \<Longrightarrow> pc s < length code \<Longrightarrow> reachable ext code (step ext code s)"


section \<open>An instance of the decoder\<close>

text \<open>Modelled from the spec: \<open>smol_evm.opcodes\<close> is not among the sources. The spec's
  decoder reads the opcode byte at the cursor and moves the cursor past it and past up to
  \<open>operandWidth\<close> operand bytes, stopping at the end of the buffer; the push opcodes
  declare widths 1 to 32; an instruction without operand is rendered as its mnemonic, one
  with a full operand as mnemonic and \<open>0x\<close> hex; every byte decodes to some mnemonic.
  The spec's examples give \<open>00\<close> STOP, \<open>01\<close> ADD, \<open>5b\<close> JUMPDEST and \<open>60\<close> PUSH1; the
  other opcode values are those of the EVM. This instance only serves to exhibit
  concrete runs.\<close>

text \<open>Modelled from the spec: the push opcodes, \<open>60\<close> (PUSH1) to \<open>7f\<close> (PUSH32).\<close>

definition evm_is_push :: "byte \<Rightarrow> bool" where
  "evm_is_push op = (0x60 \<le> op \<and> op \<le> 0x7f)"

text \<open>Modelled from the spec: the declared operand width, 1 to 32 for a push and 0
  otherwise.\<close>

definition evm_width :: "byte \<Rightarrow> nat" where
  "evm_width op = (if evm_is_push op then unat op - 0x5f else 0)"

text \<open>Modelled from the spec: the mnemonics the spec names; any other byte falls back to
  \<open>INVALID\<close>, so that every byte decodes.\<close>

definition evm_mnemonic :: "byte \<Rightarrow> string" where
  "evm_mnemonic op =
     (if op = 0x00 then ''STOP''
      else if op = 0x01 then ''ADD''
      else if op = 0x56 then ''JUMP''
      else if op = 0x5b then ''JUMPDEST''
      else if op = 0xf3 then ''RETURN''
      else if op = 0xfd then ''REVERT''
      else if evm_is_push op then ''PUSH'' @ dec_nat (evm_width op)
      else ''INVALID'')"

text \<open>Modelled from the spec: the decoder. It is only called with \<open>p\<close> inside the
  buffer.\<close>

definition evm_decode :: "byte list \<Rightarrow> nat \<Rightarrow> Instruction \<times> nat" where
  "evm_decode code p =
     (let op = code ! p;
          w = evm_width op;
          operand = py_slice code (p + 1) (p + 1 + w)
      in (\<lparr>opcode = op, is_push = evm_is_push op, push_width = w,
           str = evm_mnemonic op @ (if evm_is_push op then '' 0x'' @ bytes_hex operand else [])\<rparr>,
          min (length code) (p + 1 + w)))"

text \<open>Modelled from the spec: the imported names, with the opcode values of the EVM.\<close>

definition evm :: opcodes where
  "evm = \<lparr>decode_opcode = evm_decode, JUMP = 0x56, STOP = 0x00, REVERT = 0xfd,
          RETURN = 0xf3, INVALID = 0xfe, JUMPDEST = 0x5b\<rparr>"


section \<open>Invariants of the listing\<close>

text \<open>A line that renders an instruction whose opcode ends a code run.\<close>

fun term_insn :: "opcodes \<Rightarrow> line \<Rightarrow> bool" where
  "term_insn ext (Insn p insn) = (opcode insn \<in> TERMINATING ext)"
| "term_insn ext l = False"

text \<open>Every DATA line comes directly after such a line.\<close>

definition preceded :: "opcodes \<Rightarrow> line list \<Rightarrow> bool" where
  "preceded ext ls = (\<forall>i<length ls. is_Data (ls ! i) \<longrightarrow> 0 < i \<and> term_insn ext (ls ! (i - 1)))"

text \<open>A line describes the buffer at its offset: an instruction line holds the
  instruction decoded there, a truncated push holds the operand bytes that are left, a
  data line holds the bytes of the buffer from its offset on.\<close>

fun describes :: "opcodes \<Rightarrow> byte list \<Rightarrow> line \<Rightarrow> bool" where
  "describes ext code (Insn p insn) =
     (p < length code \<and> insn = fst (decode_opcode ext code p) \<and> opcode insn = code ! p)"
| "describes ext code (Truncated p insn push_data) =
     (p < length code \<and> insn = fst (decode_opcode ext code p) \<and> opcode insn = code ! p
      \<and> is_push insn \<and> push_data = drop (p + 1) code \<and> length push_data < push_width insn)"
| "describes ext code (Data ds) =
     (start_pc ds < length code \<and> data ds \<noteq> []
      \<and> start_pc ds + length (data ds) \<le> length code
      \<and> data ds = py_slice code (start_pc ds) (start_pc ds + length (data ds)))"

text \<open>The invariant of the loop, for a decoder that keeps its contract.\<close>

definition line_inv :: "opcodes \<Rightarrow> byte list \<Rightarrow> line state \<Rightarrow> bool" where
  "line_inv ext code s =
     (sorted_wrt (<) (map line_pc (output s))
      \<and> (\<forall>l\<in>set (output s).
            line_pc l < (case data_section s of None \<Rightarrow> pc s | Some ds \<Rightarrow> start_pc ds)
            \<and> describes ext code l)
      \<and> (\<forall>ds. data_section s = Some ds \<longrightarrow>
            \<not> reading_code s \<and> data ds \<noteq> [] \<and> data ds = py_slice code (start_pc ds) (pc s))
      \<and> preceded ext (output s)
      \<and> (data_section s \<noteq> None \<or> (\<not> reading_code s \<and> pc s < length code) \<longrightarrow>
            output s \<noteq> [] \<and> term_insn ext (last (output s))))"

text \<open>The offset a line of the output shows: the hexadecimal numeral before its first colon.\<close>

definition embedded_offset :: "string \<Rightarrow> nat" where
  "embedded_offset l = hex_val (takeWhile (\<lambda>c. c \<noteq> CHR '':'') l)"

text \<open>What holds of an open data section, and of the lines written so far, for any decoder.\<close>

definition data_inv :: "byte list \<Rightarrow> 'o state \<Rightarrow> bool" where
  "data_inv code s =
     (\<forall>ds. data_section s = Some ds \<longrightarrow>
        data ds \<noteq> [] \<and> \<not> reading_code s \<and> start_pc ds < length code)"

definition lines_inv :: "byte list \<Rightarrow> line list \<Rightarrow> bool" where
  "lines_inv code ls =
     (\<forall>l\<in>set ls. line_pc l < length code \<and> (\<forall>ds. l = Data ds \<longrightarrow> data ds \<noteq> []))"

text \<open>An iteration that starts in state \<open>t\<close> runs in data mode: the loop goes on, the
  mode flag is off and the opcode decoded is not JUMPDEST.\<close>

definition in_data_mode :: "opcodes \<Rightarrow> byte list \<Rightarrow> string state \<Rightarrow> bool" where
  "in_data_mode ext code t =
     (pc t < length code \<and> \<not> reading_code t
      \<and> opcode (fst (decode_opcode ext code (pc t))) \<noteq> JUMPDEST ext)"

text \<open>A line that begins with exactly four hexadecimal digits followed by \<open>": "\<close>.\<close>

definition four_digit_prefix :: "string \<Rightarrow> bool" where
  "four_digit_prefix l = (list_all is_hex (take 4 l) \<and> take 2 (drop 4 l) = '': '')"


section \<open>Basic facts about the loop\<close>

lemma pc_step: "pc (step ext code s) = snd (decode_opcode ext code (pc s))"
  by (simp add: step_def Let_def split: prod.split)

lemma pc_step_lines: "pc (step_lines ext code s) = snd (decode_opcode ext code (pc s))"
  by (simp add: step_lines_def Let_def split: prod.split)

lemma rendered_simps [simp]:
  "pc (rendered s) = pc s"
  "reading_code (rendered s) = reading_code s"
  "data_section (rendered s) = data_section s"
  "output (rendered s) = map render_line (output s)"
  by (simp_all add: rendered_def)

lemma step_rendered: "step ext code (rendered s) = rendered (step_lines ext code s)"
  by (simp add: step_def step_lines_def rendered_def render_def Let_def
      split: prod.split option.split)

lemma finish_rendered: "finish (rendered s) = map render_line (finish_lines s)"
  by (simp add: finish_def finish_lines_def render_def split: option.split)

lemma rendered_init: "rendered init = init"
  by (simp add: rendered_def init_def)

lemma loop_rule:
  assumes adv: "advances ext code"
    and step: "\<And>s. I s \<Longrightarrow> pc s < length code \<Longrightarrow> I (step ext code s)"
  shows "I s \<Longrightarrow> \<exists>t. loop ext code s = Some t \<and> I t \<and> length code \<le> pc t"
proof (induction "length code - pc s" arbitrary: s rule: less_induct)
  case less
  show ?case
  proof (cases "pc s < length code")
    case True
    let ?s' = "step ext code s"
    from adv True have "pc s < pc ?s'"
      by (simp add: advances_def pc_step)
    with True have "length code - pc ?s' < length code - pc s" by arith
    moreover have "I ?s'" using less.prems True by (rule step)
    ultimately obtain t where "loop ext code ?s' = Some t" "I t" "length code \<le> pc t"
      using less.hyps by blast
    with True show ?thesis by (subst loop.simps) simp
  next
    case False
    with less.prems show ?thesis by (subst loop.simps) simp
  qed
qed

lemma loop_lines_rule:
  assumes adv: "advances ext code"
    and step: "\<And>s. I s \<Longrightarrow> pc s < length code \<Longrightarrow> I (step_lines ext code s)"
  shows "I s \<Longrightarrow> \<exists>t. loop_lines ext code s = Some t \<and> I t \<and> length code \<le> pc t"
proof (induction "length code - pc s" arbitrary: s rule: less_induct)
  case less
  show ?case
  proof (cases "pc s < length code")
    case True
    let ?s' = "step_lines ext code s"
    from adv True have "pc s < pc ?s'"
      by (simp add: advances_def pc_step_lines)
    with True have "length code - pc ?s' < length code - pc s" by arith
    moreover have "I ?s'" using less.prems True by (rule step)
    ultimately obtain t where "loop_lines ext code ?s' = Some t" "I t" "length code \<le> pc t"
      using less.hyps by blast
    with True show ?thesis by (subst loop_lines.simps) simp
  next
    case False
    with less.prems show ?thesis by (subst loop_lines.simps) simp
  qed
qed

lemma loop_rendered:
  assumes adv: "advances ext code"
  shows "loop ext code (rendered s) = map_option rendered (loop_lines ext code s)"
proof (induction "length code - pc s" arbitrary: s rule: less_induct)
  case less
  show ?case
  proof (cases "pc s < length code")
    case True
    let ?s' = "step_lines ext code s"
    from adv True have "pc s < pc ?s'"
      by (simp add: advances_def pc_step_lines)
    with True have "length code - pc ?s' < length code - pc s" by arith
    then have "loop ext code (rendered ?s') = map_option rendered (loop_lines ext code ?s')"
      by (rule less.hyps)
    with True show ?thesis
      by (subst loop.simps, subst loop_lines.simps) (simp add: step_rendered)
  next
    case False
    then show ?thesis by (subst loop.simps, subst loop_lines.simps) simp
  qed
qed

lemma disassemble_listing:
  "advances ext code \<Longrightarrow> disassemble ext code = map_option (map render_line) (listing ext code)"
  using loop_rendered [of ext code init]
  by (simp add: disassemble_def listing_def rendered_init option.map_comp comp_def finish_rendered)

lemma reachable_loop: "reachable ext code s \<Longrightarrow> loop ext code init = loop ext code s"
proof (induction rule: reachable.induct)
  case start
  show ?case by simp
next
  case (iter s)
  then show ?case using loop.simps [of ext code s] by simp
qed

lemma faithful_advances: "faithful ext code \<Longrightarrow> advances ext code"
  unfolding faithful_def advances_def
proof (intro allI impI)
  fix p assume a: "\<forall>p<length code.
        opcode (fst (decode_opcode ext code p)) = code ! p \<and>
        min (length code) (snd (decode_opcode ext code p))
          = min (length code) (p + 1 + operand_width (fst (decode_opcode ext code p)))"
    and p: "p < length code"
  then have "min (length code) (snd (decode_opcode ext code p))
          = min (length code) (p + 1 + operand_width (fst (decode_opcode ext code p)))" by blast
  with p show "p < snd (decode_opcode ext code p)" by (auto simp: min_def split: if_splits)
qed

lemma evm_faithful: "faithful evm code"
  by (simp add: faithful_def evm_def evm_decode_def Let_def operand_width_def evm_width_def)


section \<open>Facts about the formatting primitives\<close>

lemma hex_digits: "d < 16 \<Longrightarrow> hex_value (hex_digit d) = d \<and> is_hex (hex_digit d)"
proof -
  assume "d < 16"
  then have "d \<in> set [0..<16]" by simp
  then show ?thesis
    by (auto simp: upt_rec hex_digit_def hex_value_def is_hex_def)
qed

lemma hex_nat_not_Nil [simp]: "hex_nat n \<noteq> []"
  by (subst hex_nat.simps) simp

lemma hex_val_snoc: "hex_val (s @ [c]) = hex_val s * 16 + hex_value c"
  by (simp add: hex_val_def)

lemma hex_val_hex_nat: "hex_val (hex_nat n) = n"
proof (induction n rule: hex_nat.induct)
  case (1 n)
  show ?case
  proof (cases "n < 16")
    case True
    then show ?thesis
      by (subst hex_nat.simps) (simp add: hex_val_def hex_digits)
  next
    case False
    then have "hex_val (hex_nat (n div 16)) = n div 16" by (rule 1)
    with False show ?thesis
      by (subst hex_nat.simps) (simp add: hex_val_snoc hex_digits)
  qed
qed

lemma is_hex_hex_nat: "list_all is_hex (hex_nat n)"
proof (induction n rule: hex_nat.induct)
  case (1 n)
  show ?case
  proof (cases "n < 16")
    case True
    then show ?thesis by (subst hex_nat.simps) (simp add: hex_digits)
  next
    case False
    then have "list_all is_hex (hex_nat (n div 16))" by (rule 1)
    with False show ?thesis by (subst hex_nat.simps) (simp add: hex_digits)
  qed
qed

lemma hex_nat_length_le: "n < 16 ^ k \<Longrightarrow> 0 < k \<Longrightarrow> length (hex_nat n) \<le> k"
proof (induction n arbitrary: k rule: hex_nat.induct)
  case (1 n)
  show ?case
  proof (cases "n < 16")
    case True
    with 1 show ?thesis by (subst hex_nat.simps) simp
  next
    case False
    obtain j where k: "k = Suc j" using 1(3) by (cases k) auto
    have "0 < j" using False 1(2) k by (cases j) auto
    moreover have "n div 16 < 16 ^ j" using 1(2) k by (simp add: less_mult_imp_div_less mult.commute)
    ultimately have "length (hex_nat (n div 16)) \<le> j" using 1(1) [OF False] by blast
    with False k show ?thesis by (subst hex_nat.simps) simp
  qed
qed

lemma hex_nat_length_gt: "16 ^ k \<le> n \<Longrightarrow> k < length (hex_nat n)"
proof (induction n arbitrary: k rule: hex_nat.induct)
  case (1 n)
  show ?case
  proof (cases "n < 16")
    case True
    with 1(2) have "(16::nat) ^ k < 16 ^ 1" by simp
    then have "k = 0" using power_strict_increasing_iff [of "16::nat" k 1] by simp
    with True show ?thesis by (subst hex_nat.simps) simp
  next
    case False
    show ?thesis
    proof (cases k)
      case 0
      then show ?thesis using hex_nat_not_Nil [of n] by simp
    next
      case (Suc j)
      with 1(2) have "16 ^ j \<le> n div 16" by (simp add: less_eq_div_iff_mult_less_eq mult.commute)
      then have "j < length (hex_nat (n div 16))" using 1(1) [OF False] by blast
      with False Suc show ?thesis by (subst hex_nat.simps) simp
    qed
  qed
qed

lemma hex_val_zeros: "hex_val (replicate k CHR ''0'' @ s) = hex_val s"
proof -
  have "foldl (\<lambda>acc c. acc * 16 + hex_value c) 0 (replicate k CHR ''0'') = 0"
    by (induction k) (simp_all add: hex_value_def)
  then show ?thesis by (simp add: hex_val_def)
qed

lemma hex_val_format_0x: "hex_val (format_0x w n) = n"
  by (simp add: format_0x_def zero_pad_def hex_val_zeros hex_val_hex_nat)

lemma is_hex_zeros: "list_all is_hex (replicate k CHR ''0'')"
  by (induction k) (simp_all add: is_hex_def)

lemma is_hex_format_0x: "list_all is_hex (format_0x w n)"
  by (simp add: format_0x_def zero_pad_def is_hex_hex_nat is_hex_zeros)

lemma length_format_0x: "length (format_0x w n) = max w (length (hex_nat n))"
  by (simp add: format_0x_def zero_pad_def)

lemma length_format_04x: "length (format_0x 4 p) = 4 \<longleftrightarrow> p < 65536"
proof (cases "p < 65536")
  case True
  then have "length (hex_nat p) \<le> 4" using hex_nat_length_le [of p 4] by simp
  with True show ?thesis by (simp add: length_format_0x)
next
  case False
  then have "4 < length (hex_nat p)" using hex_nat_length_gt [of 4 p] by simp
  with False show ?thesis by (simp add: length_format_0x)
qed

lemma format_0x_snoc:
  assumes "0 < w" "d < 16"
  shows "format_0x (Suc w) (n * 16 + d) = format_0x w n @ [hex_digit d]"
proof (cases "n = 0")
  case True
  have "hex_nat 0 = ''0''" by (subst hex_nat.simps) (simp add: hex_digit_def)
  moreover have "hex_nat d = [hex_digit d]" using assms by (subst hex_nat.simps) simp
  moreover have "replicate (w - Suc 0) CHR ''0'' @ ''0'' = replicate w CHR ''0''"
    using assms(1) by (cases w) (simp_all add: replicate_append_same)
  ultimately show ?thesis using True by (simp add: format_0x_def zero_pad_def)
next
  case False
  with assms have "hex_nat (n * 16 + d) = hex_nat n @ [hex_digit d]"
    by (subst hex_nat.simps) simp
  then show ?thesis by (simp add: format_0x_def zero_pad_def)
qed

lemma format_0x_byte:
  assumes "0 < w" "b < 256"
  shows "format_0x (Suc (Suc w)) (n * 256 + b) = format_0x w n @ format_0x 2 b"
proof -
  have b: "b div 16 < 16" "b mod 16 < 16" using assms(2) by simp_all
  have e: "n * 256 + b = (n * 16 + b div 16) * 16 + b mod 16" by simp
  have "format_0x (Suc (Suc w)) (n * 256 + b)
      = format_0x (Suc w) (n * 16 + b div 16) @ [hex_digit (b mod 16)]"
    by (subst e, rule format_0x_snoc) (simp_all add: b)
  also have "format_0x (Suc w) (n * 16 + b div 16) = format_0x w n @ [hex_digit (b div 16)]"
    using assms(1) b(1) by (rule format_0x_snoc)
  finally have l: "format_0x (Suc (Suc w)) (n * 256 + b)
      = format_0x w n @ [hex_digit (b div 16), hex_digit (b mod 16)]" by simp
  have "hex_nat (b div 16) = [hex_digit (b div 16)]" using b by (subst hex_nat.simps) simp
  then have one: "format_0x (Suc 0) (b div 16) = [hex_digit (b div 16)]"
    by (simp add: format_0x_def zero_pad_def)
  have "format_0x (Suc (Suc 0)) (b div 16 * 16 + b mod 16)
      = format_0x (Suc 0) (b div 16) @ [hex_digit (b mod 16)]"
    by (rule format_0x_snoc) (simp_all add: b)
  then have "format_0x 2 b = [hex_digit (b div 16), hex_digit (b mod 16)]"
    using one by (simp add: numeral_2_eq_2)
  with l show ?thesis by simp
qed

lemma from_bytes_big_snoc: "from_bytes_big (bs @ [b]) = from_bytes_big bs * 256 + unat b"
  by (simp add: from_bytes_big_def)

lemma unat_byte_less: "unat (b :: byte) < 256"
  using unsigned_less [of b] by simp

lemma length_format_byte: "length (format_0x 2 (unat (b :: byte))) = 2"
proof -
  have "length (hex_nat (unat b)) \<le> 2"
    using hex_nat_length_le [of "unat b" 2] unat_byte_less [of b] by simp
  then show ?thesis by (simp add: length_format_0x)
qed

lemma length_bytes_hex: "length (bytes_hex bs) = 2 * length bs"
  by (induction bs) (simp_all add: bytes_hex_def length_format_byte)

lemma bytes_hex_snoc: "bytes_hex (bs @ [b]) = bytes_hex bs @ format_0x 2 (unat b)"
  by (simp add: bytes_hex_def)

lemma format_from_bytes:
  "bs \<noteq> [] \<Longrightarrow> format_0x (length bs * 2) (from_bytes_big bs) = bytes_hex bs"
proof (induction bs rule: rev_induct)
  case Nil
  then show ?case by simp
next
  case (snoc b bs)
  show ?case
  proof (cases "bs = []")
    case True
    then show ?thesis by (simp add: from_bytes_big_def bytes_hex_def)
  next
    case False
    then have "format_0x (length bs * 2) (from_bytes_big bs) = bytes_hex bs" by (rule snoc.IH)
    moreover have "0 < length bs * 2" using False by simp
    ultimately show ?thesis
      using format_0x_byte [of "length bs * 2" "unat b" "from_bytes_big bs"] unat_byte_less [of b]
      by (simp add: from_bytes_big_snoc bytes_hex_snoc)
  qed
qed

lemma hex_val_bytes_hex: "hex_val (bytes_hex bs) = from_bytes_big bs"
proof (cases "bs = []")
  case True
  then show ?thesis by (simp add: bytes_hex_def from_bytes_big_def hex_val_def)
next
  case False
  then show ?thesis using hex_val_format_0x [of "length bs * 2" "from_bytes_big bs"]
    by (simp add: format_from_bytes)
qed

lemma is_hex_bytes_hex: "list_all is_hex (bytes_hex bs)"
  by (induction bs) (simp_all add: bytes_hex_def is_hex_format_0x)

lemma render_text_nonempty:
  "data ds \<noteq> [] \<Longrightarrow> render_text ds = format_0x 4 (start_pc ds) @ '': DATA 0x'' @ bytes_hex (data ds)"
  by (simp add: render_text_def format_from_bytes)


section \<open>The invariant is kept by every iteration\<close>

lemma slice_same [simp]: "py_slice xs a a = []"
  by (simp add: py_slice_def)

lemma slice_min: "py_slice xs a (min (length xs) b) = py_slice xs a b"
  by (auto simp: py_slice_def min_def)

lemma slice_cong_min:
  "min (length xs) b = min (length xs) c \<Longrightarrow> py_slice xs a b = py_slice xs a c"
  using slice_min [of xs a b] slice_min [of xs a c] by simp

lemma slice_append: "a \<le> b \<Longrightarrow> b \<le> c \<Longrightarrow> py_slice xs a b @ py_slice xs b c = py_slice xs a c"
proof -
  assume ab: "a \<le> b" and bc: "b \<le> c"
  have "take (c - a) (drop a xs) = take (b - a) (drop a xs) @ take (c - b) (drop (b - a) (drop a xs))"
    using take_add [of "b - a" "c - b" "drop a xs"] ab bc by simp
  with ab show ?thesis by (simp add: py_slice_def)
qed

lemma slice_one: "p < length xs \<Longrightarrow> py_slice xs p (Suc p) = [xs ! p]"
  by (simp add: py_slice_def take_Suc_conv_app_nth)

lemma slice_nonempty:
  assumes "py_slice xs a b \<noteq> []"
  shows "a < length xs" "a < b" "a + length (py_slice xs a b) \<le> length xs"
    "py_slice xs a (a + length (py_slice xs a b)) = py_slice xs a b"
  using assms by (auto simp: py_slice_def min_def)

lemma slice_truncated:
  "length (py_slice xs a (a + w)) < w \<Longrightarrow> py_slice xs a (a + w) = drop a xs"
  by (simp add: py_slice_def)

lemma preceded_Nil [simp]: "preceded ext []"
  by (simp add: preceded_def)

lemma preceded_snoc:
  "preceded ext (ls @ [l]) \<longleftrightarrow>
     preceded ext ls \<and> (is_Data l \<longrightarrow> ls \<noteq> [] \<and> term_insn ext (last ls))"
proof -
  have "(\<forall>i<Suc (length ls). P i) \<longleftrightarrow> (\<forall>i<length ls. P i) \<and> P (length ls)" for P
    by (auto simp: less_Suc_eq)
  then show ?thesis
    by (cases "ls = []") (auto simp: preceded_def nth_append last_conv_nth)
qed


lemma faithful_decode:
  assumes "faithful ext code" "p < length code" "decode_opcode ext code p = (insn, p')"
  shows "opcode insn = code ! p"
    and "min (length code) p' = min (length code) (p + 1 + operand_width insn)"
    and "p < p'"
proof -
  from assms show "opcode insn = code ! p"
    and m: "min (length code) p' = min (length code) (p + 1 + operand_width insn)"
    by (auto simp: faithful_def)
  from m assms(2) show "p < p'" by (auto simp: min_def split: if_splits)
qed

lemma line_inv_init: "line_inv ext code init"
  by (simp add: line_inv_def init_def)

lemma push_data_slice:
  "(if is_push insn then py_slice code (p + 1) (p + 1 + push_width insn) else [])
     = py_slice code (p + 1) (p + 1 + operand_width insn)"
  by (simp add: operand_width_def)

lemma line_inv_step:
  assumes f: "faithful ext code" and I: "line_inv ext code s" and p: "pc s < length code"
  shows "line_inv ext code (step_lines ext code s)"
proof -
  obtain insn p' where d: "decode_opcode ext code (pc s) = (insn, p')"
    by (cases "decode_opcode ext code (pc s)")
  note fd = faithful_decode [OF f p d]
  define push_data where "push_data = py_slice code (pc s + 1) (pc s + 1 + operand_width insn)"
  define out1 where
    "out1 = (case data_section s of Some ds \<Rightarrow> output s @ [Data ds] | None \<Rightarrow> output s)"
  define ln where
    "ln = (if is_push insn \<and> length push_data < push_width insn
           then Truncated (pc s) insn push_data else Insn (pc s) insn)"
  have insn: "insn = fst (decode_opcode ext code (pc s))" using d by simp
  show ?thesis
  proof (cases "reading_code s \<or> opcode insn = JUMPDEST ext")
    case True
    have st: "step_lines ext code s
        = \<lparr>pc = p', reading_code = (opcode insn \<notin> TERMINATING ext),
           data_section = None, output = out1 @ [ln]\<rparr>"
      using True d
      by (simp add: step_lines_def Let_def push_data_slice push_data_def out1_def ln_def)
    have ln_pc: "line_pc ln = pc s" by (simp add: ln_def)
    have ln_nd: "\<not> is_Data ln" by (simp add: ln_def)
    have ln_desc: "describes ext code ln"
    proof (cases "is_push insn \<and> length push_data < push_width insn")
      case True
      then have ip: "is_push insn" and lt: "length push_data < push_width insn" by simp_all
      from ip have "push_data = py_slice code (pc s + 1) (pc s + 1 + push_width insn)"
        by (simp add: push_data_def operand_width_def)
      with lt have "push_data = drop (pc s + 1) code"
        using slice_truncated [of code "pc s + 1" "push_width insn"] by simp
      with True p insn fd(1) show ?thesis by (simp add: ln_def)
    next
      case False
      with p insn fd(1) show ?thesis by (auto simp: ln_def)
    qed
    have out1_bound: "\<forall>l\<in>set out1. line_pc l < pc s \<and> describes ext code l"
    proof (cases "data_section s")
      case None
      with I show ?thesis by (simp add: out1_def line_inv_def)
    next
      case (Some ds)
      with I have ds: "data ds \<noteq> []" "data ds = py_slice code (start_pc ds) (pc s)"
        and old: "\<forall>l\<in>set (output s). line_pc l < start_pc ds \<and> describes ext code l"
        by (auto simp: line_inv_def)
      from ds have ne: "py_slice code (start_pc ds) (pc s) \<noteq> []" by simp
      note sl = slice_nonempty [OF ne]
      have "describes ext code (Data ds)" using ds sl by simp
      moreover have "start_pc ds < pc s" by (rule sl(2))
      ultimately show ?thesis using old Some by (auto simp: out1_def)
    qed
    have out1_sorted: "sorted_wrt (<) (map line_pc out1)"
    proof (cases "data_section s")
      case None
      with I show ?thesis by (simp add: out1_def line_inv_def)
    next
      case (Some ds)
      with I show ?thesis by (auto simp: out1_def line_inv_def sorted_wrt_append)
    qed
    have out1_prec: "preceded ext out1"
    proof (cases "data_section s")
      case None
      with I show ?thesis by (simp add: out1_def line_inv_def)
    next
      case (Some ds)
      with I show ?thesis by (simp add: out1_def line_inv_def preceded_snoc)
    qed
    have c1: "sorted_wrt (<) (map line_pc (out1 @ [ln]))"
      using out1_sorted out1_bound ln_pc by (simp add: sorted_wrt_append)
    have c2: "\<forall>l\<in>set (out1 @ [ln]). line_pc l < p' \<and> describes ext code l"
      using out1_bound ln_pc ln_desc fd(3) by auto
    have c4: "preceded ext (out1 @ [ln])"
      using out1_prec ln_nd by (simp add: preceded_snoc)
    have c5: "opcode insn \<in> TERMINATING ext \<Longrightarrow> p' < length code \<Longrightarrow> term_insn ext ln"
    proof -
      assume t: "opcode insn \<in> TERMINATING ext" and lt: "p' < length code"
      have "\<not> (is_push insn \<and> length push_data < push_width insn)"
      proof
        assume tr: "is_push insn \<and> length push_data < push_width insn"
        then have "length code - (pc s + 1) < push_width insn"
          by (auto simp: push_data_def operand_width_def py_slice_def)
        then have "length code \<le> pc s + 1 + operand_width insn"
          using tr by (auto simp: operand_width_def)
        with fd(2) lt show False by (simp add: min_def split: if_splits)
      qed
      with t show ?thesis by (simp add: ln_def)
    qed
    show ?thesis
      unfolding st line_inv_def using c1 c2 c4 c5 by simp
  next
    case False
    define ds0 where
      "ds0 = (case data_section s of None \<Rightarrow> \<lparr>start_pc = pc s, data = []\<rparr> | Some ds \<Rightarrow> ds)"
    have st: "step_lines ext code s
        = \<lparr>pc = p', reading_code = False,
           data_section = Some (ds0\<lparr>data := data ds0 @ [opcode insn] @ push_data\<rparr>),
           output = output s\<rparr>"
      using False d
      by (simp add: step_lines_def Let_def push_data_slice push_data_def ds0_def)
    have ds0c: "start_pc ds0 \<le> pc s \<and> data ds0 = py_slice code (start_pc ds0) (pc s)
      \<and> (\<forall>l\<in>set (output s). line_pc l < start_pc ds0 \<and> describes ext code l)"
    proof (cases "data_section s")
      case None
      with I show ?thesis by (simp add: ds0_def line_inv_def)
    next
      case (Some ds)
      with I have ds: "data ds \<noteq> []" "data ds = py_slice code (start_pc ds) (pc s)"
        and old: "\<forall>l\<in>set (output s). line_pc l < start_pc ds \<and> describes ext code l"
        by (auto simp: line_inv_def)
      from ds have ne: "py_slice code (start_pc ds) (pc s) \<noteq> []" by simp
      from slice_nonempty(2) [OF ne] ds old Some show ?thesis by (simp add: ds0_def)
    qed
    then have ds0: "start_pc ds0 \<le> pc s" "data ds0 = py_slice code (start_pc ds0) (pc s)"
      "\<forall>l\<in>set (output s). line_pc l < start_pc ds0 \<and> describes ext code l"
      by blast+
    have "[opcode insn] @ push_data = py_slice code (pc s) (pc s + 1 + operand_width insn)"
      using slice_one [OF p] slice_append [of "pc s" "Suc (pc s)" "pc s + 1 + operand_width insn" code]
      by (simp add: fd(1) push_data_def)
    also have "\<dots> = py_slice code (pc s) p'"
      by (rule slice_cong_min) (simp add: fd(2))
    finally have eq: "data ds0 @ [opcode insn] @ push_data = py_slice code (start_pc ds0) p'"
      using ds0(1,2) fd(3) slice_append [of "start_pc ds0" "pc s" p' code] by simp
    have "py_slice code (start_pc ds0) p' \<noteq> []" using eq [symmetric] by simp
    moreover note eq
    moreover from I p False have "output s \<noteq> [] \<and> term_insn ext (last (output s))"
      by (simp add: line_inv_def)
    moreover from I have "sorted_wrt (<) (map line_pc (output s))" "preceded ext (output s)"
      by (simp_all add: line_inv_def)
    ultimately show ?thesis
      unfolding st line_inv_def using ds0(3) by simp
  qed
qed


section \<open>The listing of a whole run\<close>

lemma listing_faithful:
  assumes f: "faithful ext code"
  shows "\<exists>ls. listing ext code = Some ls \<and> disassemble ext code = Some (map render_line ls)
           \<and> sorted_wrt (<) (map line_pc ls) \<and> (\<forall>l\<in>set ls. describes ext code l)
           \<and> preceded ext ls"
proof -
  have adv: "advances ext code" using f by (rule faithful_advances)
  obtain t where t: "loop_lines ext code init = Some t" "line_inv ext code t" "length code \<le> pc t"
    using loop_lines_rule [of ext code "line_inv ext code" init, OF adv line_inv_step [OF f]]
      line_inv_init by blast
  let ?ls = "finish_lines t"
  have l: "listing ext code = Some ?ls" using t(1) by (simp add: listing_def)
  then have d: "disassemble ext code = Some (map render_line ?ls)"
    using disassemble_listing [OF adv] by simp
  have "sorted_wrt (<) (map line_pc ?ls) \<and> (\<forall>l\<in>set ?ls. describes ext code l) \<and> preceded ext ?ls"
  proof (cases "data_section t")
    case None
    with t(2) show ?thesis by (auto simp: finish_lines_def line_inv_def)
  next
    case (Some ds)
    with t(2) have ds: "data ds \<noteq> []" "data ds = py_slice code (start_pc ds) (pc t)"
      and old: "\<forall>l\<in>set (output t). line_pc l < start_pc ds \<and> describes ext code l"
      and so: "sorted_wrt (<) (map line_pc (output t))"
      and pr: "preceded ext (output t)" "output t \<noteq> []" "term_insn ext (last (output t))"
      by (auto simp: line_inv_def)
    from ds have ne: "py_slice code (start_pc ds) (pc t) \<noteq> []" by simp
    note sl = slice_nonempty [OF ne]
    have "describes ext code (Data ds)" using ds sl by simp
    with old so pr Some show ?thesis
      by (auto simp: finish_lines_def sorted_wrt_append preceded_snoc)
  qed
  with l d show ?thesis by blast
qed

lemma data_inv_step:
  assumes "data_inv code s" "pc s < length code"
  shows "data_inv code (step ext code s)"
  using assms
  by (auto simp: data_inv_def step_def Let_def split: prod.split option.split)

lemma data_inv_reachable: "reachable ext code s \<Longrightarrow> data_inv code s"
proof (induction rule: reachable.induct)
  case start
  show ?case by (simp add: data_inv_def init_def)
next
  case (iter s)
  then show ?case by (simp add: data_inv_step)
qed

lemma data_lines_inv_step:
  assumes "data_inv code s \<and> lines_inv code (output s)" "pc s < length code"
  shows "data_inv code (step_lines ext code s) \<and> lines_inv code (output (step_lines ext code s))"
  using assms
  by (auto simp: data_inv_def lines_inv_def step_lines_def Let_def split: prod.split option.split)

lemma listing_advances:
  assumes adv: "advances ext code"
  shows "\<exists>ls. listing ext code = Some ls \<and> disassemble ext code = Some (map render_line ls)
           \<and> lines_inv code ls"
proof -
  have "data_inv code (init :: line state) \<and> lines_inv code (output (init :: line state))"
    by (simp add: data_inv_def lines_inv_def init_def)
  then obtain t where t: "loop_lines ext code init = Some t"
    "data_inv code t \<and> lines_inv code (output t)"
    using loop_lines_rule [of ext code "\<lambda>s. data_inv code s \<and> lines_inv code (output s)" init,
        OF adv data_lines_inv_step] by blast
  let ?ls = "finish_lines t"
  have l: "listing ext code = Some ?ls" using t(1) by (simp add: listing_def)
  then have d: "disassemble ext code = Some (map render_line ?ls)"
    using disassemble_listing [OF adv] by simp
  have "lines_inv code ?ls"
    using t(2) by (auto simp: finish_lines_def data_inv_def lines_inv_def split: option.split)
  with l d show ?thesis by blast
qed

lemma is_hex_not_colon: "is_hex c \<Longrightarrow> c \<noteq> CHR '':''"
  by (auto simp: is_hex_def)

lemma embedded_offset_format: "embedded_offset (format_0x w p @ CHR '':'' # rest) = p"
proof -
  have "\<forall>c\<in>set (format_0x w p). c \<noteq> CHR '':''"
    using is_hex_format_0x [of w p] is_hex_not_colon by (auto simp: list_all_iff)
  then have "takeWhile (\<lambda>c. c \<noteq> CHR '':'') (format_0x w p @ CHR '':'' # rest) = format_0x w p"
    by (simp add: takeWhile_append2)
  then show ?thesis by (simp add: embedded_offset_def hex_val_format_0x)
qed

lemma render_line_prefix:
  "\<exists>rest. render_line l = format_0x 4 (line_pc l) @ '': '' @ rest"
  by (cases l) (simp_all add: render_text_def)

lemma embedded_offset_render_line: "embedded_offset (render_line l) = line_pc l"
  using render_line_prefix [of l] embedded_offset_format by auto

lemma term_insn_iff:
  "term_insn ext l \<longleftrightarrow> (\<exists>p insn. l = Insn p insn \<and> opcode insn \<in> TERMINATING ext)"
  by (cases l) simp_all


section \<open>Evaluating concrete runs\<close>

lemma hex_nat_small: "n < 16 \<Longrightarrow> hex_nat n = [hex_digit n]"
  by (subst hex_nat.simps) simp

lemma hex_nat_large: "\<not> n < 16 \<Longrightarrow> hex_nat n = hex_nat (n div 16) @ [hex_digit (n mod 16)]"
  by (subst hex_nat.simps) simp

lemma dec_nat_small: "n < 10 \<Longrightarrow> dec_nat n = [hex_digit n]"
  by (subst dec_nat.simps) simp

lemma dec_nat_large: "\<not> n < 10 \<Longrightarrow> dec_nat n = dec_nat (n div 10) @ [hex_digit (n mod 10)]"
  by (subst dec_nat.simps) simp

lemma replicate_numeral: "replicate (numeral k) x = x # replicate (pred_numeral k) x"
  by (simp add: numeral_eq_Suc)

lemmas run_simps = step_def Let_def evm_def evm_decode_def evm_width_def evm_is_push_def
  evm_mnemonic_def TERMINATING_def py_slice_def init_def finish_def render_def render_text_def
  format_0x_def zero_pad_def bytes_hex_def from_bytes_big_def hex_digit_def
  hex_nat_small hex_nat_large dec_nat_small dec_nat_large replicate_numeral

lemmas run_lines_simps = step_lines_def finish_lines_def


section \<open>Iterations in code mode and in data mode\<close>

lemma finish_flush:
  "finish t = output t @ (case data_section t of Some ds \<Rightarrow> [render_text ds] | None \<Rightarrow> [])"
  by (simp add: finish_def render_def split: option.split)

lemma step_code_mode:
  assumes "decode_opcode ext code (pc s) = (insn, q)"
    and "reading_code s \<or> opcode insn = JUMPDEST ext"
  shows "step ext code s =
     \<lparr>pc = q, reading_code = (opcode insn \<notin> TERMINATING ext), data_section = None,
      output = finish s @
        [if is_push insn \<and> length (py_slice code (pc s + 1) (pc s + 1 + push_width insn))
                             < push_width insn
         then format_0x 4 (pc s) @ '': PUSH'' @ dec_nat (push_width insn) @ '' 0x''
                @ bytes_hex (py_slice code (pc s + 1) (pc s + 1 + push_width insn))
                @ '' # truncated''
         else format_0x 4 (pc s) @ '': '' @ str insn]\<rparr>"
  using assms
  by (auto simp: step_def Let_def finish_def render_def split: option.split)

lemma step_data_mode:
  assumes f: "faithful ext code" and p: "pc t < length code"
    and d: "decode_opcode ext code (pc t) = (insn, q)"
    and m: "\<not> reading_code t" "opcode insn \<noteq> JUMPDEST ext"
    and a: "a \<le> pc t"
    and ds: "data_section t = (if a < pc t then Some \<lparr>start_pc = a, data = py_slice code a (pc t)\<rparr>
                              else None)"
  shows "step ext code t =
     \<lparr>pc = q, reading_code = False,
      data_section = Some \<lparr>start_pc = a, data = py_slice code a q\<rparr>, output = output t\<rparr>"
    and "pc t < q"
proof -
  note fd = faithful_decode [OF f p d]
  show "pc t < q" by (rule fd(3))
  define push_data where "push_data = py_slice code (pc t + 1) (pc t + 1 + operand_width insn)"
  have "[opcode insn] @ push_data = py_slice code (pc t) (pc t + 1 + operand_width insn)"
    using slice_one [OF p]
      slice_append [of "pc t" "Suc (pc t)" "pc t + 1 + operand_width insn" code]
    by (simp add: fd(1) push_data_def)
  also have "\<dots> = py_slice code (pc t) q"
    by (rule slice_cong_min) (simp add: fd(2))
  finally have eq: "py_slice code a (pc t) @ [opcode insn] @ push_data = py_slice code a q"
    using a fd(3) slice_append [of a "pc t" q code] by simp
  have a': "\<not> a < pc t \<Longrightarrow> a = pc t" using a by simp
  show "step ext code t =
     \<lparr>pc = q, reading_code = False,
      data_section = Some \<lparr>start_pc = a, data = py_slice code a q\<rparr>, output = output t\<rparr>"
    using d m ds eq a'
    by (auto simp: step_def Let_def push_data_slice push_data_def)
qed

lemma data_scan:
  assumes f: "faithful ext code"
  shows "\<not> reading_code t \<Longrightarrow> a \<le> pc t \<Longrightarrow>
    data_section t = (if a < pc t then Some \<lparr>start_pc = a, data = py_slice code a (pc t)\<rparr>
                      else None) \<Longrightarrow>
    \<exists>n. (\<forall>k<n. in_data_mode ext code ((step ext code ^^ k) t)
                \<and> output ((step ext code ^^ k) t) = output t)
       \<and> output ((step ext code ^^ n) t) = output t
       \<and> \<not> reading_code ((step ext code ^^ n) t)
       \<and> pc t \<le> pc ((step ext code ^^ n) t)
       \<and> data_section ((step ext code ^^ n) t)
           = (if a < pc ((step ext code ^^ n) t)
              then Some \<lparr>start_pc = a, data = py_slice code a (pc ((step ext code ^^ n) t))\<rparr>
              else None)
       \<and> (length code \<le> pc ((step ext code ^^ n) t)
            \<or> opcode (fst (decode_opcode ext code (pc ((step ext code ^^ n) t)))) = JUMPDEST ext)"
proof (induction "length code - pc t" arbitrary: t rule: less_induct)
  case less
  show ?case
  proof (cases "in_data_mode ext code t")
    case False
    with less.prems have "length code \<le> pc t
        \<or> opcode (fst (decode_opcode ext code (pc t))) = JUMPDEST ext"
      by (auto simp: in_data_mode_def)
    with less.prems show ?thesis by (intro exI [of _ 0]) simp
  next
    case True
    then have p: "pc t < length code"
      and jd: "opcode (fst (decode_opcode ext code (pc t))) \<noteq> JUMPDEST ext"
      by (simp_all add: in_data_mode_def)
    obtain insn q where d: "decode_opcode ext code (pc t) = (insn, q)"
      by (cases "decode_opcode ext code (pc t)")
    let ?t' = "step ext code t"
    have st: "?t' = \<lparr>pc = q, reading_code = False,
        data_section = Some \<lparr>start_pc = a, data = py_slice code a q\<rparr>, output = output t\<rparr>"
      and lt: "pc t < q"
      using step_data_mode [OF f p d less.prems(1) _ less.prems(2,3)] jd d by simp_all
    have aq: "a < q" using lt less.prems(2) by simp
    have "length code - pc ?t' < length code - pc t" using lt p by (simp add: st)
    moreover have "\<not> reading_code ?t'" "a \<le> pc ?t'"
      "data_section ?t' = (if a < pc ?t'
         then Some \<lparr>start_pc = a, data = py_slice code a (pc ?t')\<rparr> else None)"
      using aq by (simp_all add: st)
    ultimately obtain n where n:
      "\<forall>k<n. in_data_mode ext code ((step ext code ^^ k) ?t')
                \<and> output ((step ext code ^^ k) ?t') = output ?t'"
      "output ((step ext code ^^ n) ?t') = output ?t'"
      "\<not> reading_code ((step ext code ^^ n) ?t')"
      "pc ?t' \<le> pc ((step ext code ^^ n) ?t')"
      "data_section ((step ext code ^^ n) ?t')
           = (if a < pc ((step ext code ^^ n) ?t')
              then Some \<lparr>start_pc = a, data = py_slice code a (pc ((step ext code ^^ n) ?t'))\<rparr>
              else None)"
      "length code \<le> pc ((step ext code ^^ n) ?t')
            \<or> opcode (fst (decode_opcode ext code (pc ((step ext code ^^ n) ?t')))) = JUMPDEST ext"
      using less.hyps [of ?t'] by blast
    have out: "output ?t' = output t" by (simp add: st)
    have sw: "(step ext code ^^ Suc k) t = (step ext code ^^ k) ?t'" for k
      by (simp add: funpow_swap1)
    have "\<forall>k<Suc n. in_data_mode ext code ((step ext code ^^ k) t)
                \<and> output ((step ext code ^^ k) t) = output t"
    proof (intro allI impI)
      fix k assume "k < Suc n"
      show "in_data_mode ext code ((step ext code ^^ k) t)
                \<and> output ((step ext code ^^ k) t) = output t"
      proof (cases k)
        case 0
        with True show ?thesis by simp
      next
        case (Suc j)
        with \<open>k < Suc n\<close> have "j < n" by simp
        with n(1) have "in_data_mode ext code ((step ext code ^^ j) ?t')
            \<and> output ((step ext code ^^ j) ?t') = output ?t'" by blast
        then show ?thesis unfolding Suc sw using out by simp
      qed
    qed
    moreover have "pc t \<le> pc ((step ext code ^^ n) ?t')"
      using n(4) lt by (simp add: st)
    ultimately show ?thesis
      using n(2,3,5,6) out unfolding sw [symmetric] by (intro exI [of _ "Suc n"]) simp
  qed
qed

lemma four_digit_prefix_format:
  "four_digit_prefix (format_0x 4 p @ '': '' @ rest) \<longleftrightarrow> p < 65536"
proof (cases "p < 65536")
  case True
  then have "length (format_0x 4 p) = 4" by (simp add: length_format_04x)
  with True show ?thesis by (simp add: four_digit_prefix_def is_hex_format_0x)
next
  case False
  then have "4 < length (format_0x 4 p)"
    using hex_nat_length_gt [of 4 p] by (simp add: length_format_0x)
  then obtain c cs where c: "drop 4 (format_0x 4 p) = c # cs"
    by (cases "drop 4 (format_0x 4 p)") auto
  then have "c \<in> set (format_0x 4 p)" using set_drop_subset [of 4 "format_0x 4 p"] by auto
  then have "c \<noteq> CHR '':''"
    using is_hex_format_0x [of 4 p] is_hex_not_colon by (auto simp: list_all_iff)
  with c False \<open>4 < length (format_0x 4 p)\<close> show ?thesis
    by (simp add: four_digit_prefix_def)
qed

lemma truncated_push_run:
  assumes f: "faithful ext code" and r: "reachable ext code s" and p: "pc s < length code"
    and d: "decode_opcode ext code (pc s) = (insn, q)"
    and m: "reading_code s \<or> opcode insn = JUMPDEST ext"
    and ip: "is_push insn" and w: "length code < pc s + 1 + push_width insn"
  shows "disassemble ext code
      = Some (finish s @ [format_0x 4 (pc s) @ '': PUSH'' @ dec_nat (push_width insn) @ '' 0x''
                           @ bytes_hex (drop (pc s + 1) code) @ '' # truncated''])"
    and "length (drop (pc s + 1) code) < push_width insn"
proof -
  note fd = faithful_decode [OF f p d]
  show l: "length (drop (pc s + 1) code) < push_width insn" using w p by simp
  then have pd: "py_slice code (Suc (pc s)) (Suc (pc s + push_width insn)) = drop (Suc (pc s)) code"
    by (simp add: py_slice_def)
  let ?s' = "step ext code s"
  have st: "?s' = \<lparr>pc = q, reading_code = (opcode insn \<notin> TERMINATING ext), data_section = None,
      output = finish s @ [format_0x 4 (pc s) @ '': PUSH'' @ dec_nat (push_width insn) @ '' 0x''
                           @ bytes_hex (drop (pc s + 1) code) @ '' # truncated'']\<rparr>"
    using step_code_mode [OF d m] ip l by (simp add: pd)
  have "length code \<le> q" using fd(2) w ip by (simp add: operand_width_def min_def split: if_splits)
  then have "loop ext code ?s' = Some ?s'" using loop.simps [of ext code ?s'] by (simp add: st)
  moreover have "loop ext code init = loop ext code ?s'"
    using reachable_loop [OF r] loop.simps [of ext code s] p by simp
  ultimately show "disassemble ext code
      = Some (finish s @ [format_0x 4 (pc s) @ '': PUSH'' @ dec_nat (push_width insn) @ '' 0x''
                           @ bytes_hex (drop (pc s + 1) code) @ '' # truncated''])"
    by (simp add: disassemble_def st finish_def)
qed

lemma evm_jumpdest_run:
  "k \<le> n \<Longrightarrow>
   loop evm (replicate n 0x5b @ rest)
     \<lparr>pc = k, reading_code = True, data_section = None, output = out\<rparr>
   = loop evm (replicate n 0x5b @ rest)
       \<lparr>pc = n, reading_code = True, data_section = None,
        output = out @ map (\<lambda>j. format_0x 4 j @ '': JUMPDEST'') [k..<n]\<rparr>"
proof (induction "n - k" arbitrary: k out)
  case 0
  then show ?case by simp
next
  case (Suc d)
  then have k: "k < n" by simp
  let ?code = "replicate n 0x5b @ rest"
  let ?s = "\<lparr>pc = k, reading_code = True, data_section = None, output = out\<rparr>"
  have "?code ! k = 0x5b" using k by (simp add: nth_append)
  then have "step evm ?code ?s
      = \<lparr>pc = Suc k, reading_code = True, data_section = None,
         output = out @ [format_0x 4 k @ '': JUMPDEST'']\<rparr>"
    using k
    by (simp add: step_def Let_def evm_def evm_decode_def evm_width_def evm_is_push_def
        evm_mnemonic_def TERMINATING_def py_slice_def)
  then have "loop evm ?code ?s
      = loop evm ?code \<lparr>pc = Suc k, reading_code = True, data_section = None,
         output = out @ [format_0x 4 k @ '': JUMPDEST'']\<rparr>"
    using loop.simps [of evm ?code ?s] k by simp
  also have "\<dots> = loop evm ?code \<lparr>pc = n, reading_code = True, data_section = None,
        output = (out @ [format_0x 4 k @ '': JUMPDEST''])
                 @ map (\<lambda>j. format_0x 4 j @ '': JUMPDEST'') [Suc k..<n]\<rparr>"
    using Suc.hyps(2) k by (intro Suc.hyps(1)) simp_all
  finally show ?case using k by (simp add: upt_conv_Cons)
qed

lemma evm_jumpdests:
  "map_option last (disassemble evm (replicate (Suc n) 0x5b))
     = Some (format_0x 4 n @ '': JUMPDEST'')"
proof -
  let ?code = "replicate (Suc n) 0x5b :: byte list"
  let ?t = "\<lparr>pc = Suc n, reading_code = True, data_section = None,
        output = [] @ map (\<lambda>j. format_0x 4 j @ '': JUMPDEST'') [0..<Suc n]\<rparr>"
  have "loop evm (?code @ []) \<lparr>pc = 0, reading_code = True, data_section = None, output = []\<rparr>
      = loop evm (?code @ []) ?t"
    by (rule evm_jumpdest_run) simp
  moreover have "loop evm ?code ?t = Some ?t" using loop.simps [of evm ?code ?t] by simp
  ultimately have "loop evm ?code init = Some ?t" by (simp add: init_def)
  then show ?thesis by (simp add: disassemble_def finish_def)
qed

lemma evm_truncated_tail:
  "map_option last (disassemble evm (replicate n 0x5b @ [0x60]))
     = Some (format_0x 4 n @ '': PUSH1 0x # truncated'')"
proof -
  let ?code = "replicate n 0x5b @ [0x60] :: byte list"
  let ?t = "\<lparr>pc = n, reading_code = True, data_section = None,
        output = map (\<lambda>j. format_0x 4 j @ '': JUMPDEST'') [0..<n]\<rparr>"
  let ?u = "\<lparr>pc = Suc n, reading_code = True, data_section = None,
         output = map (\<lambda>j. format_0x 4 j @ '': JUMPDEST'') [0..<n]
                  @ [format_0x 4 n @ '': PUSH1 0x # truncated'']\<rparr>"
  have a: "loop evm ?code init = loop evm ?code ?t"
    using evm_jumpdest_run [of 0 n "[0x60]" "[]"] by (simp add: init_def)
  have "?code ! n = 0x60" by (simp add: nth_append)
  then have st: "step evm ?code ?t = ?u"
    by (simp add: step_def Let_def evm_def evm_decode_def evm_width_def evm_is_push_def
        TERMINATING_def py_slice_def bytes_hex_def dec_nat_small hex_digit_def)
  have b: "loop evm ?code ?t = loop evm ?code ?u"
    using loop.simps [of evm ?code ?t] by (simp add: st)
  have c: "loop evm ?code ?u = Some ?u"
    using loop.simps [of evm ?code ?u] by simp
  show ?thesis by (simp add: disassemble_def finish_def a b c)
qed


section \<open>Properties\<close>

text \<open>C8: on the empty buffer the loop body never runs and no data region is open, so
  \<open>disassemble\<close> returns the empty sequence, whatever the decoder is.\<close>

theorem disassemble_empty: "disassemble ext [] = Some []"
  by (simp add: disassemble_def loop.simps init_def finish_def)

text \<open>C5: whenever the decoder moves the cursor forward by at least one byte at every
  position of the buffer, the loop ends and \<open>disassemble\<close> returns a sequence of lines.
  The loop body has no failing operation: slices never raise, the opcode is a byte, and
  the data section is created before it is appended to.\<close>

theorem disassemble_terminates:
  "advances ext code \<Longrightarrow> \<exists>out. disassemble ext code = Some out"
  using loop_rule [of ext code "\<lambda>s. True" init] by (auto simp: disassemble_def)

theorem disassemble_terminates_witness:
  "advances evm [0x60, 0x01, 0x5b, 0x00]
   \<and> (\<exists>out. disassemble evm [0x60, 0x01, 0x5b, 0x00] = Some out)"
  using disassemble_terminates [of evm "[0x60, 0x01, 0x5b, 0x00]"]
    faithful_advances [OF evm_faithful, of "[0x60, 0x01, 0x5b, 0x00]"]
  by simp

text \<open>C4: the offsets shown by successive lines of the output are strictly increasing,
  and each is the byte position at which the line's instruction or data region begins: an
  instruction line at \<open>p\<close> renders the instruction decoded at \<open>p\<close>, whose opcode is the byte
  at \<open>p\<close>; a data line at \<open>p\<close> holds the bytes of the buffer from \<open>p\<close> on.\<close>

theorem offsets_increasing:
  assumes "faithful ext code"
  shows "\<exists>ls out. listing ext code = Some ls \<and> disassemble ext code = Some out
           \<and> out = map render_line ls
           \<and> sorted_wrt (<) (map embedded_offset out)
           \<and> (\<forall>l\<in>set ls. embedded_offset (render_line l) = line_pc l \<and> describes ext code l)"
proof -
  obtain ls where ls: "listing ext code = Some ls"
    "disassemble ext code = Some (map render_line ls)"
    "sorted_wrt (<) (map line_pc ls)" "\<forall>l\<in>set ls. describes ext code l"
    using listing_faithful [OF assms] by blast
  from ls show ?thesis by (simp add: comp_def embedded_offset_render_line)
qed

theorem offsets_increasing_witness:
  "faithful evm [0x00, 0xde, 0xad, 0x5b, 0x60, 0x01]
   \<and> disassemble evm [0x00, 0xde, 0xad, 0x5b, 0x60, 0x01]
       = Some [''0000: STOP'', ''0001: DATA 0xdead'', ''0003: JUMPDEST'', ''0004: PUSH1 0x01'']
   \<and> (\<exists>ls out. listing evm [0x00, 0xde, 0xad, 0x5b, 0x60, 0x01] = Some ls
         \<and> disassemble evm [0x00, 0xde, 0xad, 0x5b, 0x60, 0x01] = Some out
         \<and> out = map render_line ls
         \<and> sorted_wrt (<) (map embedded_offset out)
         \<and> (\<forall>l\<in>set ls. embedded_offset (render_line l) = line_pc l
               \<and> describes evm [0x00, 0xde, 0xad, 0x5b, 0x60, 0x01] l))"
proof -
  have "disassemble evm [0x00, 0xde, 0xad, 0x5b, 0x60, 0x01]
       = Some [''0000: STOP'', ''0001: DATA 0xdead'', ''0003: JUMPDEST'', ''0004: PUSH1 0x01'']"
    by (simp add: disassemble_def loop.simps run_simps)
  then show ?thesis
    using offsets_increasing [OF evm_faithful, of "[0x00, 0xde, 0xad, 0x5b, 0x60, 0x01]"]
      evm_faithful [of "[0x00, 0xde, 0xad, 0x5b, 0x60, 0x01]"]
    by (intro conjI) assumption+
qed

text \<open>C6: every DATA line of the output has, after \<open>0x\<close>, two lowercase hexadecimal
  digits for each byte of its region, leading zero bytes included, and the numeral denotes
  the big-endian integer of the region's bytes.\<close>

theorem data_payload:
  assumes "advances ext code"
  shows "\<exists>ls. listing ext code = Some ls \<and> disassemble ext code = Some (map render_line ls)
           \<and> (\<forall>ds. Data ds \<in> set ls \<longrightarrow>
                 render_line (Data ds)
                   = format_0x 4 (start_pc ds) @ '': DATA 0x'' @ bytes_hex (data ds)
                 \<and> length (bytes_hex (data ds)) = 2 * length (data ds)
                 \<and> list_all is_hex (bytes_hex (data ds))
                 \<and> hex_val (bytes_hex (data ds)) = from_bytes_big (data ds))"
proof -
  obtain ls where ls: "listing ext code = Some ls"
    "disassemble ext code = Some (map render_line ls)" "lines_inv code ls"
    using listing_advances [OF assms] by blast
  have "render_line (Data ds) = format_0x 4 (start_pc ds) @ '': DATA 0x'' @ bytes_hex (data ds)"
    if "Data ds \<in> set ls" for ds
  proof -
    from that ls(3) have "data ds \<noteq> []" by (auto simp: lines_inv_def)
    then show ?thesis by (simp add: render_text_nonempty)
  qed
  with ls(1,2) show ?thesis
    by (auto simp: length_bytes_hex is_hex_bytes_hex hex_val_bytes_hex)
qed

theorem data_payload_witness:
  "advances evm [0x00, 0x00, 0x0a, 0xbc]
   \<and> disassemble evm [0x00, 0x00, 0x0a, 0xbc] = Some [''0000: STOP'', ''0001: DATA 0x000abc'']
   \<and> (\<exists>ls. listing evm [0x00, 0x00, 0x0a, 0xbc] = Some ls
         \<and> disassemble evm [0x00, 0x00, 0x0a, 0xbc] = Some (map render_line ls)
         \<and> (\<forall>ds. Data ds \<in> set ls \<longrightarrow>
               render_line (Data ds)
                 = format_0x 4 (start_pc ds) @ '': DATA 0x'' @ bytes_hex (data ds)
               \<and> length (bytes_hex (data ds)) = 2 * length (data ds)
               \<and> list_all is_hex (bytes_hex (data ds))
               \<and> hex_val (bytes_hex (data ds)) = from_bytes_big (data ds)))"
proof -
  have "disassemble evm [0x00, 0x00, 0x0a, 0xbc] = Some [''0000: STOP'', ''0001: DATA 0x000abc'']"
    by (simp add: disassemble_def loop.simps run_simps)
  moreover have a: "advances evm [0x00, 0x00, 0x0a, 0xbc]"
    using evm_faithful by (rule faithful_advances)
  ultimately show ?thesis
    using data_payload [OF a] by (intro conjI) assumption+
qed

text \<open>C7: at the head of every iteration and after the loop, an open data section holds
  at least one byte and the pass is in data mode; so every data section that is rendered,
  by an iteration that returns to code mode or after the loop, is non-empty.\<close>

theorem data_section_nonempty:
  assumes "advances ext code"
  shows "(\<forall>s ds. reachable ext code s \<and> data_section s = Some ds
            \<longrightarrow> data ds \<noteq> [] \<and> \<not> reading_code s)
         \<and> (\<exists>ls. listing ext code = Some ls \<and> disassemble ext code = Some (map render_line ls)
               \<and> (\<forall>ds. Data ds \<in> set ls \<longrightarrow> data ds \<noteq> []))"
proof -
  obtain ls where ls: "listing ext code = Some ls"
    "disassemble ext code = Some (map render_line ls)" "lines_inv code ls"
    using listing_advances [OF assms] by blast
  from ls(3) have "\<forall>ds. Data ds \<in> set ls \<longrightarrow> data ds \<noteq> []" by (auto simp: lines_inv_def)
  with ls(1,2) show ?thesis using data_inv_reachable [of ext code]
    by (auto simp: data_inv_def)
qed

theorem data_section_nonempty_witness:
  "advances evm [0x00, 0xde, 0xad]
   \<and> reachable evm [0x00, 0xde, 0xad]
        \<lparr>pc = 2, reading_code = False, data_section = Some \<lparr>start_pc = 1, data = [0xde]\<rparr>,
         output = [''0000: STOP'']\<rparr>
   \<and> data \<lparr>start_pc = 1, data = [0xde :: byte]\<rparr> \<noteq> []
   \<and> (\<exists>ls. listing evm [0x00, 0xde, 0xad] = Some ls
         \<and> disassemble evm [0x00, 0xde, 0xad] = Some (map render_line ls)
         \<and> (\<forall>ds. Data ds \<in> set ls \<longrightarrow> data ds \<noteq> []))"
proof -
  let ?C = "[0x00, 0xde, 0xad] :: byte list"
  let ?S = "\<lparr>pc = 2, reading_code = False, data_section = Some \<lparr>start_pc = 1, data = [0xde :: byte]\<rparr>,
         output = [''0000: STOP'']\<rparr>"
  have a: "advances evm ?C" using evm_faithful by (rule faithful_advances)
  have s1: "reachable evm ?C (step evm ?C init)"
    by (rule reachable.iter [OF reachable.start]) (simp add: init_def)
  have "reachable evm ?C (step evm ?C (step evm ?C init))"
    by (rule reachable.iter [OF s1]) (simp add: run_simps)
  moreover have "step evm ?C (step evm ?C init) = ?S" by (simp add: run_simps)
  ultimately have r: "reachable evm ?C ?S" by simp
  note t = data_section_nonempty [OF a]
  from t r have "data \<lparr>start_pc = 1, data = [0xde :: byte]\<rparr> \<noteq> []" by simp
  with a r t show ?thesis by (intro conjI) (assumption | erule conjunct2)+
qed

text \<open>C10: every DATA line of the output comes directly after an instruction line (of a
  terminating opcode); so the first line is never a DATA line and no two DATA lines are
  adjacent.\<close>

theorem data_after_terminator:
  assumes "faithful ext code"
  shows "\<exists>ls. listing ext code = Some ls \<and> disassemble ext code = Some (map render_line ls)
           \<and> (\<forall>i<length ls. is_Data (ls ! i) \<longrightarrow>
                 0 < i \<and> (\<exists>p insn. ls ! (i - 1) = Insn p insn \<and> opcode insn \<in> TERMINATING ext))"
proof -
  obtain ls where ls: "listing ext code = Some ls"
    "disassemble ext code = Some (map render_line ls)" "preceded ext ls"
    using listing_faithful [OF assms] by blast
  from ls(3) have "\<forall>i<length ls. is_Data (ls ! i) \<longrightarrow>
      0 < i \<and> (\<exists>p insn. ls ! (i - 1) = Insn p insn \<and> opcode insn \<in> TERMINATING ext)"
    by (simp add: preceded_def term_insn_iff)
  with ls(1,2) show ?thesis by blast
qed

theorem data_after_terminator_witness:
  "faithful evm [0x00, 0xde, 0xad, 0x5b, 0x56, 0x01]
   \<and> disassemble evm [0x00, 0xde, 0xad, 0x5b, 0x56, 0x01]
       = Some [''0000: STOP'', ''0001: DATA 0xdead'', ''0003: JUMPDEST'', ''0004: JUMP'',
               ''0005: DATA 0x01'']
   \<and> (\<exists>ls. listing evm [0x00, 0xde, 0xad, 0x5b, 0x56, 0x01] = Some ls
         \<and> disassemble evm [0x00, 0xde, 0xad, 0x5b, 0x56, 0x01] = Some (map render_line ls)
         \<and> (\<forall>i<length ls. is_Data (ls ! i) \<longrightarrow>
               0 < i \<and> (\<exists>p insn. ls ! (i - 1) = Insn p insn \<and> opcode insn \<in> TERMINATING evm)))"
proof -
  have "disassemble evm [0x00, 0xde, 0xad, 0x5b, 0x56, 0x01]
       = Some [''0000: STOP'', ''0001: DATA 0xdead'', ''0003: JUMPDEST'', ''0004: JUMP'',
               ''0005: DATA 0x01'']"
    by (simp add: disassemble_def loop.simps run_simps)
  then show ?thesis
    using data_after_terminator [OF evm_faithful, of "[0x00, 0xde, 0xad, 0x5b, 0x56, 0x01]"]
      evm_faithful [of "[0x00, 0xde, 0xad, 0x5b, 0x56, 0x01]"]
    by (intro conjI) assumption+
qed

text \<open>C9, amended: every line of the output begins with the offset of its instruction or
  data region in lowercase hexadecimal, padded with zeros to at least four digits, then
  \<open>": "\<close>; the offset has exactly four digits if and only if it is below 65536.\<close>

theorem line_prefix:
  assumes "advances ext code"
  shows "\<exists>ls. listing ext code = Some ls \<and> disassemble ext code = Some (map render_line ls)
           \<and> (\<forall>l\<in>set ls. line_pc l < length code
                 \<and> (\<exists>rest. render_line l = format_0x 4 (line_pc l) @ '': '' @ rest)
                 \<and> list_all is_hex (format_0x 4 (line_pc l))
                 \<and> hex_val (format_0x 4 (line_pc l)) = line_pc l
                 \<and> 4 \<le> length (format_0x 4 (line_pc l))
                 \<and> (length (format_0x 4 (line_pc l)) = 4 \<longleftrightarrow> line_pc l < 65536)
                 \<and> (four_digit_prefix (render_line l) \<longleftrightarrow> line_pc l < 65536))"
proof -
  obtain ls where ls: "listing ext code = Some ls"
    "disassemble ext code = Some (map render_line ls)" "lines_inv code ls"
    using listing_advances [OF assms] by blast
  from ls(3) have "\<forall>l\<in>set ls. line_pc l < length code" by (simp add: lines_inv_def)
  moreover have "4 \<le> length (format_0x 4 p)" for p by (simp add: length_format_0x)
  moreover have "four_digit_prefix (render_line l) \<longleftrightarrow> line_pc l < 65536" for l
    using render_line_prefix [of l] four_digit_prefix_format [of "line_pc l"] by auto
  ultimately show ?thesis
    using ls(1,2) render_line_prefix
    by (auto simp: is_hex_format_0x hex_val_format_0x length_format_04x)
qed

theorem line_prefix_witness:
  "advances evm [0x60, 0x01, 0x00, 0xff]
   \<and> disassemble evm [0x60, 0x01, 0x00, 0xff]
       = Some [''0000: PUSH1 0x01'', ''0002: STOP'', ''0003: DATA 0xff'']
   \<and> (\<exists>ls. listing evm [0x60, 0x01, 0x00, 0xff] = Some ls
         \<and> disassemble evm [0x60, 0x01, 0x00, 0xff] = Some (map render_line ls)
         \<and> (\<forall>l\<in>set ls. line_pc l < length [0x60, 0x01, 0x00, 0xff :: byte]
               \<and> (\<exists>rest. render_line l = format_0x 4 (line_pc l) @ '': '' @ rest)
               \<and> list_all is_hex (format_0x 4 (line_pc l))
               \<and> hex_val (format_0x 4 (line_pc l)) = line_pc l
               \<and> 4 \<le> length (format_0x 4 (line_pc l))
               \<and> (length (format_0x 4 (line_pc l)) = 4 \<longleftrightarrow> line_pc l < 65536)
               \<and> (four_digit_prefix (render_line l) \<longleftrightarrow> line_pc l < 65536)))"
proof -
  have "disassemble evm [0x60, 0x01, 0x00, 0xff]
       = Some [''0000: PUSH1 0x01'', ''0002: STOP'', ''0003: DATA 0xff'']"
    by (simp add: disassemble_def loop.simps run_simps)
  moreover have a: "advances evm [0x60, 0x01, 0x00, 0xff]"
    using evm_faithful by (rule faithful_advances)
  ultimately show ?thesis
    using line_prefix [OF a] by (intro conjI) assumption+
qed

text \<open>C9 as stated fails on a buffer of 65537 bytes: the line of the instruction at
  offset 65536 begins with five digits.\<close>

theorem line_prefix_counterexample:
  "map_option last (disassemble evm (replicate 65537 0x5b)) = Some ''10000: JUMPDEST''
   \<and> \<not> four_digit_prefix ''10000: JUMPDEST''"
proof -
  have e: "(65537 :: nat) = Suc 65536" by simp
  have "format_0x 4 65536 = ''10000''" by (simp add: run_simps)
  then have "map_option last (disassemble evm (replicate 65537 0x5b)) = Some ''10000: JUMPDEST''"
    unfolding e using evm_jumpdests [of 65536] by simp
  moreover have "\<not> four_digit_prefix ''10000: JUMPDEST''"
    by (simp add: four_digit_prefix_def)
  ultimately show ?thesis by simp
qed

text \<open>C1: an iteration in code mode that renders an instruction of a terminating opcode
  leaves the pass in data mode, with no data section open. The iterations that follow, up
  to the first one that decodes JUMPDEST or to the end of the buffer, run in data mode:
  none of them writes a line, and together they collect the bytes from the end of the
  terminator up to that point, the operands of pushes met in data mode included, in one
  data section that starts right after the terminator; the flush that comes next, in the
  iteration of that JUMPDEST or after the loop, writes this section as one DATA line.\<close>

theorem terminator_then_data:
  assumes "faithful ext code" "pc s < length code"
    and "decode_opcode ext code (pc s) = (insn, q)"
    and "reading_code s \<or> opcode insn = JUMPDEST ext"
    and "opcode insn \<in> TERMINATING ext"
  shows "\<exists>n. let s1 = step ext code s; s2 = (step ext code ^^ n) s1 in
           pc s1 = q \<and> \<not> reading_code s1 \<and> data_section s1 = None
         \<and> (\<forall>k<n. in_data_mode ext code ((step ext code ^^ k) s1)
                  \<and> output ((step ext code ^^ k) s1) = output s1)
         \<and> output s2 = output s1 \<and> \<not> reading_code s2
         \<and> data_section s2
             = (if q < pc s2 then Some \<lparr>start_pc = q, data = py_slice code q (pc s2)\<rparr> else None)
         \<and> finish s2
             = output s1 @ (if q < pc s2
                            then [render_text \<lparr>start_pc = q, data = py_slice code q (pc s2)\<rparr>]
                            else [])
         \<and> (length code \<le> pc s2
              \<or> opcode (fst (decode_opcode ext code (pc s2))) = JUMPDEST ext)"
proof -
  let ?s1 = "step ext code s"
  have s1: "pc ?s1 = q" "\<not> reading_code ?s1" "data_section ?s1 = None"
    using step_code_mode [OF assms(3,4)] assms(5) by simp_all
  then have "data_section ?s1
      = (if q < pc ?s1 then Some \<lparr>start_pc = q, data = py_slice code q (pc ?s1)\<rparr> else None)"
    by simp
  from data_scan [OF assms(1) s1(2) _ this] s1 show ?thesis
    unfolding Let_def by (auto simp: finish_flush)
qed

theorem terminator_then_data_witness:
  "faithful evm [0x00, 0xde, 0x60, 0x5b, 0x5b, 0x00]
   \<and> pc (init :: string state) < length [0x00, 0xde, 0x60, 0x5b, 0x5b, 0x00 :: byte]
   \<and> decode_opcode evm [0x00, 0xde, 0x60, 0x5b, 0x5b, 0x00] (pc (init :: string state))
       = (\<lparr>opcode = 0x00, is_push = False, push_width = 0, str = ''STOP''\<rparr>, 1)
   \<and> reading_code (init :: string state)
   \<and> (0x00 :: byte) \<in> TERMINATING evm
   \<and> disassemble evm [0x00, 0xde, 0x60, 0x5b, 0x5b, 0x00]
       = Some [''0000: STOP'', ''0001: DATA 0xde605b'', ''0004: JUMPDEST'', ''0005: STOP'']
   \<and> (\<exists>n. let s1 = step evm [0x00, 0xde, 0x60, 0x5b, 0x5b, 0x00] init;
              s2 = (step evm [0x00, 0xde, 0x60, 0x5b, 0x5b, 0x00] ^^ n) s1 in
           pc s1 = 1 \<and> \<not> reading_code s1 \<and> data_section s1 = None
         \<and> (\<forall>k<n. in_data_mode evm [0x00, 0xde, 0x60, 0x5b, 0x5b, 0x00]
                      ((step evm [0x00, 0xde, 0x60, 0x5b, 0x5b, 0x00] ^^ k) s1)
                  \<and> output ((step evm [0x00, 0xde, 0x60, 0x5b, 0x5b, 0x00] ^^ k) s1) = output s1)
         \<and> output s2 = output s1 \<and> \<not> reading_code s2
         \<and> data_section s2
             = (if 1 < pc s2
                then Some \<lparr>start_pc = 1,
                           data = py_slice [0x00, 0xde, 0x60, 0x5b, 0x5b, 0x00] 1 (pc s2)\<rparr>
                else None)
         \<and> finish s2
             = output s1 @ (if 1 < pc s2
                            then [render_text
                                    \<lparr>start_pc = 1,
                                     data = py_slice [0x00, 0xde, 0x60, 0x5b, 0x5b, 0x00] 1 (pc s2)\<rparr>]
                            else [])
         \<and> (length [0x00, 0xde, 0x60, 0x5b, 0x5b, 0x00 :: byte] \<le> pc s2
              \<or> opcode (fst (decode_opcode evm [0x00, 0xde, 0x60, 0x5b, 0x5b, 0x00] (pc s2)))
                  = JUMPDEST evm))"
proof -
  let ?C = "[0x00, 0xde, 0x60, 0x5b, 0x5b, 0x00] :: byte list"
  let ?I = "\<lparr>opcode = 0x00 :: byte, is_push = False, push_width = 0, str = ''STOP''\<rparr>"
  have h1: "faithful evm ?C" by (rule evm_faithful)
  have h2: "pc (init :: string state) < length ?C" by (simp add: init_def)
  have h3: "decode_opcode evm ?C (pc (init :: string state)) = (?I, 1)"
    by (simp add: run_simps)
  have h4: "reading_code (init :: string state)" by (simp add: init_def)
  have h5: "(0x00 :: byte) \<in> TERMINATING evm" by (simp add: run_simps)
  have h6: "disassemble evm ?C
       = Some [''0000: STOP'', ''0001: DATA 0xde605b'', ''0004: JUMPDEST'', ''0005: STOP'']"
    by (simp add: disassemble_def loop.simps run_simps)
  have h5': "opcode ?I \<in> TERMINATING evm" using h5 by simp
  from h1 h2 h3 h4 h5 h6 terminator_then_data [OF h1 h2 h3 disjI1 [OF h4] h5']
  show ?thesis by (intro conjI) assumption+
qed

text \<open>C2: an iteration that decodes JUMPDEST in data mode first appends the DATA line of
  the open data section, if one is open, then the instruction line of the JUMPDEST at its
  own offset, and leaves the pass in code mode with no data section open. That JUMPDEST
  is neither a terminating opcode nor a push is a fact of the opcode table.\<close>

theorem jumpdest_reopens_code:
  assumes "\<not> reading_code s"
    and "decode_opcode ext code (pc s) = (insn, q)"
    and "opcode insn = JUMPDEST ext"
    and "JUMPDEST ext \<notin> TERMINATING ext" "\<not> is_push insn"
  shows "step ext code s =
     \<lparr>pc = q, reading_code = True, data_section = None,
      output = (case data_section s of
                  Some ds \<Rightarrow> output s @ [render_text ds]
                | None \<Rightarrow> output s)
               @ [format_0x 4 (pc s) @ '': '' @ str insn]\<rparr>"
  using step_code_mode [OF assms(2)] assms(1,3,4,5)
  by (simp add: finish_def render_def split: option.split)

theorem jumpdest_reopens_code_witness:
  "\<not> reading_code \<lparr>pc = 2, reading_code = False,
                     data_section = Some \<lparr>start_pc = 1, data = [0xde]\<rparr>,
                     output = [''0000: STOP'']\<rparr>
   \<and> reachable evm [0x00, 0xde, 0x5b]
        \<lparr>pc = 2, reading_code = False, data_section = Some \<lparr>start_pc = 1, data = [0xde]\<rparr>,
         output = [''0000: STOP'']\<rparr>
   \<and> decode_opcode evm [0x00, 0xde, 0x5b] 2
       = (\<lparr>opcode = 0x5b, is_push = False, push_width = 0, str = ''JUMPDEST''\<rparr>, 3)
   \<and> JUMPDEST evm = 0x5b
   \<and> JUMPDEST evm \<notin> TERMINATING evm
   \<and> step evm [0x00, 0xde, 0x5b]
        \<lparr>pc = 2, reading_code = False, data_section = Some \<lparr>start_pc = 1, data = [0xde]\<rparr>,
         output = [''0000: STOP'']\<rparr>
       = \<lparr>pc = 3, reading_code = True, data_section = None,
          output = [''0000: STOP'', ''0001: DATA 0xde'', ''0002: JUMPDEST'']\<rparr>"
proof -
  let ?C = "[0x00, 0xde, 0x5b] :: byte list"
  let ?S = "\<lparr>pc = 2, reading_code = False,
             data_section = Some \<lparr>start_pc = 1, data = [0xde :: byte]\<rparr>,
             output = [''0000: STOP'']\<rparr>"
  let ?I = "\<lparr>opcode = 0x5b :: byte, is_push = False, push_width = 0, str = ''JUMPDEST''\<rparr>"
  have s1: "reachable evm ?C (step evm ?C init)"
    by (rule reachable.iter [OF reachable.start]) (simp add: init_def)
  have "reachable evm ?C (step evm ?C (step evm ?C init))"
    by (rule reachable.iter [OF s1]) (simp add: run_simps)
  moreover have "step evm ?C (step evm ?C init) = ?S" by (simp add: run_simps)
  ultimately have r: "reachable evm ?C ?S" by simp
  have h1: "\<not> reading_code ?S" by simp
  have h2: "decode_opcode evm ?C (pc ?S) = (?I, 3)" by (simp add: run_simps)
  have h3: "opcode ?I = JUMPDEST evm" by (simp add: evm_def)
  have h4: "JUMPDEST evm \<notin> TERMINATING evm" by (simp add: run_simps)
  have h5: "\<not> is_push ?I" by simp
  have "step evm ?C ?S = \<lparr>pc = 3, reading_code = True, data_section = None,
          output = [''0000: STOP'', ''0001: DATA 0xde'', ''0002: JUMPDEST'']\<rparr>"
    using jumpdest_reopens_code [OF h1 h2 h3 h4 h5] by (simp add: run_simps)
  with r h1 h2 h3 h4 show ?thesis by simp
qed

text \<open>C3, amended: a push decoded in code mode whose operand width reaches past the end of
  the buffer is rendered as its offset, \<open>PUSH\<close> and the width, \<open>0x\<close> and the hex of the
  operand bytes that are there, and \<open># truncated\<close>; this line is the last of the output.
  The offset is in lowercase hexadecimal padded to at least four digits, so the line
  begins with exactly four digits if and only if the offset is below 65536. The single
  byte \<open>60\<close> gives the one line \<open>0000: PUSH1 0x # truncated\<close>.\<close>

theorem truncated_push_last:
  "(faithful ext code \<and> reachable ext code s \<and> pc s < length code
      \<and> decode_opcode ext code (pc s) = (insn, q)
      \<and> (reading_code s \<or> opcode insn = JUMPDEST ext)
      \<and> is_push insn \<and> length code < pc s + 1 + push_width insn
    \<longrightarrow> disassemble ext code
          = Some (finish s @ [format_0x 4 (pc s) @ '': PUSH'' @ dec_nat (push_width insn)
                                @ '' 0x'' @ bytes_hex (drop (pc s + 1) code) @ '' # truncated''])
        \<and> length (drop (pc s + 1) code) < push_width insn
        \<and> (four_digit_prefix
             (format_0x 4 (pc s) @ '': PUSH'' @ dec_nat (push_width insn)
                @ '' 0x'' @ bytes_hex (drop (pc s + 1) code) @ '' # truncated'')
           \<longleftrightarrow> pc s < 65536))
   \<and> disassemble evm [0x60] = Some [''0000: PUSH1 0x # truncated'']"
proof -
  have "disassemble evm [0x60] = Some [''0000: PUSH1 0x # truncated'']"
    by (simp add: disassemble_def loop.simps run_simps)
  moreover have "four_digit_prefix
             (format_0x 4 (pc s) @ '': PUSH'' @ dec_nat (push_width insn)
                @ '' 0x'' @ bytes_hex (drop (pc s + 1) code) @ '' # truncated'')
           \<longleftrightarrow> pc s < 65536"
    using four_digit_prefix_format [of "pc s"] by simp
  ultimately show ?thesis using truncated_push_run [of ext code s insn q] by blast
qed

theorem truncated_push_last_witness:
  "faithful evm [0x5b, 0x61, 0xab]
   \<and> reachable evm [0x5b, 0x61, 0xab]
        \<lparr>pc = 1, reading_code = True, data_section = None, output = [''0000: JUMPDEST'']\<rparr>
   \<and> decode_opcode evm [0x5b, 0x61, 0xab] 1
       = (\<lparr>opcode = 0x61, is_push = True, push_width = 2, str = ''PUSH2 0xab''\<rparr>, 3)
   \<and> length [0x5b, 0x61, 0xab :: byte] < 1 + 1 + 2
   \<and> disassemble evm [0x5b, 0x61, 0xab]
       = Some [''0000: JUMPDEST'', ''0001: PUSH2 0xab # truncated'']"
proof -
  let ?C = "[0x5b, 0x61, 0xab] :: byte list"
  let ?S = "\<lparr>pc = 1, reading_code = True, data_section = None,
             output = [''0000: JUMPDEST'']\<rparr>"
  let ?I = "\<lparr>opcode = 0x61 :: byte, is_push = True, push_width = 2, str = ''PUSH2 0xab''\<rparr>"
  have h1: "faithful evm ?C" by (rule evm_faithful)
  have "reachable evm ?C (step evm ?C init)"
    by (rule reachable.iter [OF reachable.start]) (simp add: init_def)
  moreover have "step evm ?C init = ?S" by (simp add: run_simps)
  ultimately have h2: "reachable evm ?C ?S" by simp
  have h3: "decode_opcode evm ?C 1 = (?I, 3)" by (simp add: run_simps)
  have h4: "length ?C < 1 + 1 + 2" by simp
  have "faithful evm ?C \<and> reachable evm ?C ?S \<and> pc ?S < length ?C
      \<and> decode_opcode evm ?C (pc ?S) = (?I, 3)
      \<and> (reading_code ?S \<or> opcode ?I = JUMPDEST evm)
      \<and> is_push ?I \<and> length ?C < pc ?S + 1 + push_width ?I"
    using h1 h2 h3 by simp
  with truncated_push_last [of evm ?C ?S ?I 3]
  have "disassemble evm ?C
          = Some (finish ?S @ [format_0x 4 (pc ?S) @ '': PUSH'' @ dec_nat (push_width ?I)
                                @ '' 0x'' @ bytes_hex (drop (pc ?S + 1) ?C) @ '' # truncated''])"
    by blast
  then have "disassemble evm ?C = Some [''0000: JUMPDEST'', ''0001: PUSH2 0xab # truncated'']"
    by (simp add: run_simps)
  with h1 h2 h3 h4 show ?thesis by simp
qed

text \<open>C3 as stated fails when the truncated push is at offset 65536: its line begins with
  five digits.\<close>

theorem truncated_push_counterexample:
  "map_option last (disassemble evm (replicate 65536 0x5b @ [0x60]))
     = Some ''10000: PUSH1 0x # truncated''
   \<and> \<not> four_digit_prefix ''10000: PUSH1 0x # truncated''"
proof -
  have "format_0x 4 65536 = ''10000''" by (simp add: run_simps)
  then have "map_option last (disassemble evm (replicate 65536 0x5b @ [0x60]))
     = Some ''10000: PUSH1 0x # truncated''"
    using evm_truncated_tail [of 65536] by simp
  moreover have "\<not> four_digit_prefix ''10000: PUSH1 0x # truncated''"
    by (simp add: four_digit_prefix_def)
  ultimately show ?thesis by simp
qed

end
